theory Spec2Isabelle
  imports Complex_Main
begin

section \<open>EventBus\<close>

text \<open>
  The bus keeps two JavaScript \<^verbatim>\<open>Map\<close>s from event names to \<^verbatim>\<open>Set\<close>s of callbacks.
  A callback is a function object; only its identity matters to a \<^verbatim>\<open>Set\<close>, so it is
  a number here, and what it does when it is called is looked up in an environment.
  A \<^verbatim>\<open>Set\<close> is an object that stays alive while a \<^verbatim>\<open>forEach\<close> walks it, also after the
  \<^verbatim>\<open>Map\<close> has dropped it, so the sets live in a store and the maps hold addresses.
\<close>

type_synonym event = string
type_synonym hid = nat
type_synonym addr = nat

text \<open>
  The entries of a \<^verbatim>\<open>Set\<close> in insertion order. \<^verbatim>\<open>delete\<close> empties the entry in place
  (\<open>None\<close>) and \<^verbatim>\<open>add\<close> appends, which is what \<^verbatim>\<open>forEach\<close> observes when callbacks
  change the set under it.
\<close>

type_synonym jsset = "hid option list"

definition set_has :: "hid \<Rightarrow> jsset \<Rightarrow> bool" where
  "set_has h s = (Some h \<in> set s)"

definition set_add :: "hid \<Rightarrow> jsset \<Rightarrow> jsset" where
  "set_add h s = (if set_has h s then s else s @ [Some h])"

definition set_delete :: "hid \<Rightarrow> jsset \<Rightarrow> jsset" where
  "set_delete h s = map (\<lambda>x. if x = Some h then None else x) s"

fun live :: "jsset \<Rightarrow> hid list" where
  "live [] = []"
| "live (None # s) = live s"
| "live (Some h # s) = h # live s"


text \<open>The calls a program makes on the bus, and the body of a callback: it raises, or it calls the bus.\<close>

datatype 'd op =
    On event hid
  | Once event hid
  | Off event hid
  | Emit event 'd
  | Clear event
  | ClearAll

datatype 'd cmd = Throw string | Call "'d op"

type_synonym 'd env = "hid \<Rightarrow> 'd cmd list"

datatype outcome = Returned | Threw string

datatype log = ListenerError event string | OnceListenerError event string

record 'd bus =
  store :: "addr \<Rightarrow> jsset"
  next_addr :: addr
  listeners :: "event \<Rightarrow> addr option"
  onceListeners :: "event \<Rightarrow> addr option"
  calls :: "(event \<times> hid \<times> 'd) list"
  error_log :: "log list"

text \<open>
  \<open>calls\<close> records every invocation \<^verbatim>\<open>callback(data)\<close> and \<open>error_log\<close> every
  \<^verbatim>\<open>console.error\<close>; the code reads neither.
\<close>

definition EventBus_new :: "'d bus" where
  "EventBus_new = \<lparr>store = (\<lambda>_. []), next_addr = 0, listeners = Map.empty,
     onceListeners = Map.empty, calls = [], error_log = []\<rparr>"

text \<open>The unsubscribe function returned by \<^verbatim>\<open>on\<close>: the closure \<^verbatim>\<open>() => this.off(event, callback)\<close>.\<close>

datatype unsubscribe = Unsubscribe event hid

text \<open>
  \<^verbatim>\<open>on\<close> and \<^verbatim>\<open>once\<close> first make sure the event has a set, with \<^verbatim>\<open>new Set()\<close> at a fresh
  address when it has none, and then add to the set \<^verbatim>\<open>get(event)\<close> returns; that second
  lookup always finds one.
\<close>

definition on :: "event \<Rightarrow> hid \<Rightarrow> 'd bus \<Rightarrow> unsubscribe \<times> 'd bus" where
  "on e h st =
     (let st1 = (case listeners st e of
                   None \<Rightarrow> st\<lparr>store := (store st)(next_addr st := []),
                               next_addr := Suc (next_addr st),
                               listeners := (listeners st)(e \<mapsto> next_addr st)\<rparr>
                 | Some _ \<Rightarrow> st)
      in (Unsubscribe e h,
          case listeners st1 e of
            None \<Rightarrow> st1
          | Some a \<Rightarrow> st1\<lparr>store := (store st1)(a := set_add h (store st1 a))\<rparr>))"

definition once :: "event \<Rightarrow> hid \<Rightarrow> 'd bus \<Rightarrow> 'd bus" where
  "once e h st =
     (let st1 = (case onceListeners st e of
                   None \<Rightarrow> st\<lparr>store := (store st)(next_addr st := []),
                               next_addr := Suc (next_addr st),
                               onceListeners := (onceListeners st)(e \<mapsto> next_addr st)\<rparr>
                 | Some _ \<Rightarrow> st)
      in case onceListeners st1 e of
           None \<Rightarrow> st1
         | Some a \<Rightarrow> st1\<lparr>store := (store st1)(a := set_add h (store st1 a))\<rparr>)"

definition off :: "event \<Rightarrow> hid \<Rightarrow> 'd bus \<Rightarrow> 'd bus" where
  "off e h st =
     (let st1 = (case listeners st e of
                   None \<Rightarrow> st
                 | Some a \<Rightarrow> st\<lparr>store := (store st)(a := set_delete h (store st a))\<rparr>)
      in case onceListeners st1 e of
           None \<Rightarrow> st1
         | Some b \<Rightarrow> st1\<lparr>store := (store st1)(b := set_delete h (store st1 b))\<rparr>)"

definition clear :: "event \<Rightarrow> 'd bus \<Rightarrow> 'd bus" where
  "clear e st = st\<lparr>listeners := (listeners st)(e := None),
                   onceListeners := (onceListeners st)(e := None)\<rparr>"

definition clearAll :: "'d bus \<Rightarrow> 'd bus" where
  "clearAll st = st\<lparr>listeners := Map.empty, onceListeners := Map.empty\<rparr>"

definition invoke_unsubscribe :: "unsubscribe \<Rightarrow> 'd bus \<Rightarrow> 'd bus" where
  "invoke_unsubscribe u st = (case u of Unsubscribe e h \<Rightarrow> off e h st)"


text \<open>
  \<^verbatim>\<open>emit\<close> and the callbacks it runs call each other, and a callback can keep a
  \<^verbatim>\<open>forEach\<close> going for ever by deleting and adding itself again, so every loop step
  and every nested \<^verbatim>\<open>emit\<close> spends fuel; \<open>None\<close> is a run that does not come back.
  \<open>forEach\<close> is \<^verbatim>\<open>Set.prototype.forEach\<close>: it reads the live entries by position and
  stops when its callback raises. \<open>listener\<close> is the arrow function \<^verbatim>\<open>emit\<close> hands
  to it, the \<^verbatim>\<open>try\<close>/\<^verbatim>\<open>catch\<close> around \<^verbatim>\<open>callback(data)\<close>; the flag tells the once loop
  from the regular one.
\<close>

function (sequential) emit :: "nat \<Rightarrow> 'd env \<Rightarrow> event \<Rightarrow> 'd \<Rightarrow> 'd bus \<Rightarrow> (outcome \<times> 'd bus) option"
and forEach :: "nat \<Rightarrow> 'd env \<Rightarrow> bool \<Rightarrow> event \<Rightarrow> 'd \<Rightarrow> addr \<Rightarrow> nat \<Rightarrow> 'd bus \<Rightarrow> (outcome \<times> 'd bus) option"
and listener :: "nat \<Rightarrow> 'd env \<Rightarrow> bool \<Rightarrow> event \<Rightarrow> 'd \<Rightarrow> hid \<Rightarrow> 'd bus \<Rightarrow> (outcome \<times> 'd bus) option"
and call :: "nat \<Rightarrow> 'd env \<Rightarrow> 'd cmd list \<Rightarrow> 'd bus \<Rightarrow> (outcome \<times> 'd bus) option"
and apply_op :: "nat \<Rightarrow> 'd env \<Rightarrow> 'd op \<Rightarrow> 'd bus \<Rightarrow> (outcome \<times> 'd bus) option"
where
  "emit 0 env e d st = None"
| "emit (Suc n) env e d st =
     (case (case listeners st e of
              None \<Rightarrow> Some (Returned, st)
            | Some a \<Rightarrow> forEach n env False e d a 0 st) of
        None \<Rightarrow> None
      | Some (Threw x, st1) \<Rightarrow> Some (Threw x, st1)
      | Some (Returned, st1) \<Rightarrow>
          (case onceListeners st1 e of
             None \<Rightarrow> Some (Returned, st1)
           | Some b \<Rightarrow>
               (case forEach n env True e d b 0 st1 of
                  None \<Rightarrow> None
                | Some (Threw x, st2) \<Rightarrow> Some (Threw x, st2)
                | Some (Returned, st2) \<Rightarrow>
                    Some (Returned, st2\<lparr>onceListeners := (onceListeners st2)(e := None)\<rparr>))))"
| "forEach 0 env oflag e d a i st = None"
| "forEach (Suc n) env oflag e d a i st =
     (if i < length (store st a) then
        (case store st a ! i of
           None \<Rightarrow> forEach n env oflag e d a (Suc i) st
         | Some h \<Rightarrow>
             (case listener n env oflag e d h st of
                None \<Rightarrow> None
              | Some (Threw x, st1) \<Rightarrow> Some (Threw x, st1)
              | Some (Returned, st1) \<Rightarrow> forEach n env oflag e d a (Suc i) st1))
      else Some (Returned, st))"
| "listener n env oflag e d h st =
     (case call n env (env h) (st\<lparr>calls := calls st @ [(e, h, d)]\<rparr>) of
        None \<Rightarrow> None
      | Some (Threw x, st1) \<Rightarrow>
          Some (Returned, st1\<lparr>error_log := error_log st1 @
                  [if oflag then OnceListenerError e x else ListenerError e x]\<rparr>)
      | Some (Returned, st1) \<Rightarrow> Some (Returned, st1))"
| "call n env [] st = Some (Returned, st)"
| "call n env (Throw x # cs) st = Some (Threw x, st)"
| "call n env (Call c # cs) st =
     (case apply_op n env c st of
        None \<Rightarrow> None
      | Some (Threw x, st1) \<Rightarrow> Some (Threw x, st1)
      | Some (Returned, st1) \<Rightarrow> call n env cs st1)"
| "apply_op n env (On e h) st = Some (Returned, snd (on e h st))"
| "apply_op n env (Once e h) st = Some (Returned, once e h st)"
| "apply_op n env (Off e h) st = Some (Returned, off e h st)"
| "apply_op n env (Emit e d) st = emit n env e d st"
| "apply_op n env (Clear e) st = Some (Returned, clear e st)"
| "apply_op n env ClearAll st = Some (Returned, clearAll st)"
  by pat_completeness auto

termination
  by (relation "measures
        [\<lambda>x. case x of
            Inl (Inl (n, _)) \<Rightarrow> n
          | Inl (Inr (n, _)) \<Rightarrow> n
          | Inr (Inl (n, _)) \<Rightarrow> n
          | Inr (Inr (Inl (n, _))) \<Rightarrow> n
          | Inr (Inr (Inr (n, _))) \<Rightarrow> n,
         \<lambda>x. case x of
            Inl _ \<Rightarrow> 0
          | Inr (Inl _) \<Rightarrow> 3
          | Inr (Inr (Inl _)) \<Rightarrow> 2
          | Inr (Inr (Inr _)) \<Rightarrow> 1,
         \<lambda>x. case x of
            Inr (Inr (Inl (_, _, cs, _))) \<Rightarrow> length cs
          | _ \<Rightarrow> 0]") auto

subsection \<open>Callbacks that do not call the bus\<close>







text \<open>What a run is seen to do: how it ended, the invocations and the logged errors.\<close>

definition observed :: "(outcome \<times> 'd bus) option \<Rightarrow> (outcome \<times> (event \<times> hid \<times> 'd) list \<times> log list) option" where
  "observed res = (case res of None \<Rightarrow> None | Some (r, st) \<Rightarrow> Some (r, calls st, error_log st))"

subsection \<open>Invariants of the bus\<close>

text \<open>
  A property \<open>I\<close> of the bus and a relation \<open>R\<close> between an earlier and a later bus are kept
  by every run when the single steps keep them: the bus operations (those \<open>Allowed\<close>,
  which the callback bodies stay within), the bookkeeping of an invocation and of an error,
  and the removal of the once set. \<open>Gs\<close> says which set a loop for an event may walk
  and \<open>Gh\<close> which callback may be invoked for it.
\<close>

definition closed_system ::
  "('d bus \<Rightarrow> bool) \<Rightarrow> ('d bus \<Rightarrow> 'd bus \<Rightarrow> bool) \<Rightarrow> (event \<Rightarrow> addr \<Rightarrow> 'd bus \<Rightarrow> bool) \<Rightarrow>
   (event \<Rightarrow> hid \<Rightarrow> bool) \<Rightarrow> ('d op \<Rightarrow> bool) \<Rightarrow> 'd env \<Rightarrow> bool" where
  "closed_system I R Gs Gh Allowed env =
     ((\<forall>st. R st st) \<and>
      (\<forall>s1 s2 s3. R s1 s2 \<longrightarrow> R s2 s3 \<longrightarrow> R s1 s3) \<and>
      (\<forall>e h st. I st \<longrightarrow> Allowed (On e h) \<longrightarrow> I (snd (on e h st)) \<and> R st (snd (on e h st))) \<and>
      (\<forall>e h st. I st \<longrightarrow> Allowed (Once e h) \<longrightarrow> I (once e h st) \<and> R st (once e h st)) \<and>
      (\<forall>e h st. I st \<longrightarrow> I (off e h st) \<and> R st (off e h st)) \<and>
      (\<forall>e st. I st \<longrightarrow> I (clear e st) \<and> R st (clear e st)) \<and>
      (\<forall>st. I st \<longrightarrow> I (clearAll st) \<and> R st (clearAll st)) \<and>
      (\<forall>e h d st. I st \<longrightarrow> Gh e h \<longrightarrow>
          I (st\<lparr>calls := calls st @ [(e, h, d)]\<rparr>) \<and> R st (st\<lparr>calls := calls st @ [(e, h, d)]\<rparr>)) \<and>
      (\<forall>l st. I st \<longrightarrow>
          I (st\<lparr>error_log := error_log st @ [l]\<rparr>) \<and> R st (st\<lparr>error_log := error_log st @ [l]\<rparr>)) \<and>
      (\<forall>e st. I st \<longrightarrow>
          I (st\<lparr>onceListeners := (onceListeners st)(e := None)\<rparr>) \<and>
          R st (st\<lparr>onceListeners := (onceListeners st)(e := None)\<rparr>)) \<and>
      (\<forall>e a i h st. I st \<longrightarrow> Gs e a st \<longrightarrow> i < length (store st a) \<longrightarrow>
          store st a ! i = Some h \<longrightarrow> Gh e h) \<and>
      (\<forall>e a st. I st \<longrightarrow> (listeners st e = Some a \<or> onceListeners st e = Some a) \<longrightarrow> Gs e a st) \<and>
      (\<forall>e a st st'. Gs e a st \<longrightarrow> R st st' \<longrightarrow> Gs e a st') \<and>
      (\<forall>h c. Call c \<in> set (env h) \<longrightarrow> Allowed c))"

definition emit_ok ::
  "('d bus \<Rightarrow> bool) \<Rightarrow> ('d bus \<Rightarrow> 'd bus \<Rightarrow> bool) \<Rightarrow> 'd env \<Rightarrow> nat \<Rightarrow> bool" where
  "emit_ok I R env n =
     (\<forall>e d st r st'. I st \<longrightarrow> emit n env e d st = Some (r, st') \<longrightarrow> I st' \<and> R st st')"

definition forEach_ok ::
  "('d bus \<Rightarrow> bool) \<Rightarrow> ('d bus \<Rightarrow> 'd bus \<Rightarrow> bool) \<Rightarrow> (event \<Rightarrow> addr \<Rightarrow> 'd bus \<Rightarrow> bool) \<Rightarrow>
   'd env \<Rightarrow> nat \<Rightarrow> bool" where
  "forEach_ok I R Gs env n =
     (\<forall>oflag e d a i st r st'. I st \<longrightarrow> Gs e a st \<longrightarrow>
        forEach n env oflag e d a i st = Some (r, st') \<longrightarrow> I st' \<and> R st st')"

definition listener_ok ::
  "('d bus \<Rightarrow> bool) \<Rightarrow> ('d bus \<Rightarrow> 'd bus \<Rightarrow> bool) \<Rightarrow> (event \<Rightarrow> hid \<Rightarrow> bool) \<Rightarrow>
   'd env \<Rightarrow> nat \<Rightarrow> bool" where
  "listener_ok I R Gh env n =
     (\<forall>oflag e d h st r st'. I st \<longrightarrow> Gh e h \<longrightarrow>
        listener n env oflag e d h st = Some (r, st') \<longrightarrow> I st' \<and> R st st')"

definition call_ok ::
  "('d bus \<Rightarrow> bool) \<Rightarrow> ('d bus \<Rightarrow> 'd bus \<Rightarrow> bool) \<Rightarrow> ('d op \<Rightarrow> bool) \<Rightarrow> 'd env \<Rightarrow> nat \<Rightarrow> bool" where
  "call_ok I R Allowed env n =
     (\<forall>cs st r st'. I st \<longrightarrow> (\<forall>c. Call c \<in> set cs \<longrightarrow> Allowed c) \<longrightarrow>
        call n env cs st = Some (r, st') \<longrightarrow> I st' \<and> R st st')"

definition apply_op_ok ::
  "('d bus \<Rightarrow> bool) \<Rightarrow> ('d bus \<Rightarrow> 'd bus \<Rightarrow> bool) \<Rightarrow> ('d op \<Rightarrow> bool) \<Rightarrow> 'd env \<Rightarrow> nat \<Rightarrow> bool" where
  "apply_op_ok I R Allowed env n =
     (\<forall>c st r st'. I st \<longrightarrow> Allowed c \<longrightarrow>
        apply_op n env c st = Some (r, st') \<longrightarrow> I st' \<and> R st st')"

text \<open>
  What every bus built by the operations satisfies: the maps hold addresses that have been
  handed out, no two keys share a set, and no callback is twice in a set.
\<close>

definition bus_wf :: "'d bus \<Rightarrow> bool" where
  "bus_wf st =
     ((\<forall>e a. listeners st e = Some a \<longrightarrow> a < next_addr st) \<and>
      (\<forall>e b. onceListeners st e = Some b \<longrightarrow> b < next_addr st) \<and>
      (\<forall>e e' a. listeners st e = Some a \<longrightarrow> listeners st e' = Some a \<longrightarrow> e = e') \<and>
      (\<forall>e e' b. onceListeners st e = Some b \<longrightarrow> onceListeners st e' = Some b \<longrightarrow> e = e') \<and>
      (\<forall>e e' a. listeners st e = Some a \<longrightarrow> onceListeners st e' \<noteq> Some a) \<and>
      (\<forall>a. distinct (live (store st a))))"

definition is_listener :: "'d bus \<Rightarrow> event \<Rightarrow> hid \<Rightarrow> bool" where
  "is_listener st e h = (case listeners st e of None \<Rightarrow> False | Some a \<Rightarrow> set_has h (store st a))"

definition is_once_listener :: "'d bus \<Rightarrow> event \<Rightarrow> hid \<Rightarrow> bool" where
  "is_once_listener st e h =
     (case onceListeners st e of None \<Rightarrow> False | Some b \<Rightarrow> set_has h (store st b))"

text \<open>
  After \<^verbatim>\<open>off(e, h)\<close>: a set is clean when it has been handed out, does not hold \<open>h\<close> and
  is reached from no event other than \<open>e\<close>. The sets of \<open>e\<close> are clean and stay clean as
  long as nobody registers \<open>h\<close> for \<open>e\<close>, also a set a running loop still walks after the
  map has dropped it; and from position \<open>k\<close> on the invocations do not show \<open>h\<close> for \<open>e\<close>.
\<close>

definition clean :: "event \<Rightarrow> hid \<Rightarrow> 'd bus \<Rightarrow> addr \<Rightarrow> bool" where
  "clean e h st a =
     (a < next_addr st \<and> \<not> set_has h (store st a) \<and>
      (\<forall>e'. e' \<noteq> e \<longrightarrow> listeners st e' \<noteq> Some a \<and> onceListeners st e' \<noteq> Some a))"

definition unsubscribed :: "event \<Rightarrow> hid \<Rightarrow> nat \<Rightarrow> 'd bus \<Rightarrow> bool" where
  "unsubscribed e h k st =
     ((\<forall>e' a. listeners st e' = Some a \<or> onceListeners st e' = Some a \<longrightarrow> a < next_addr st) \<and>
      (\<forall>a. listeners st e = Some a \<or> onceListeners st e = Some a \<longrightarrow> clean e h st a) \<and>
      (\<forall>d. (e, h, d) \<notin> set (drop k (calls st))))"

definition stays_clean :: "event \<Rightarrow> hid \<Rightarrow> 'd bus \<Rightarrow> 'd bus \<Rightarrow> bool" where
  "stays_clean e h st st' = (\<forall>a. clean e h st a \<longrightarrow> clean e h st' a)"

definition may_walk :: "event \<Rightarrow> hid \<Rightarrow> event \<Rightarrow> addr \<Rightarrow> 'd bus \<Rightarrow> bool" where
  "may_walk e h e1 a st = (e1 = e \<longrightarrow> clean e h st a)"

definition may_invoke :: "event \<Rightarrow> hid \<Rightarrow> event \<Rightarrow> hid \<Rightarrow> bool" where
  "may_invoke e h e1 h1 = (\<not> (e1 = e \<and> h1 = h))"

definition no_register :: "event \<Rightarrow> hid \<Rightarrow> 'd op \<Rightarrow> bool" where
  "no_register e h c = (c \<noteq> On e h \<and> c \<noteq> Once e h)"

subsection \<open>Buses and programs used as examples\<close>





text \<open>No callback does anything; callback 7 is registered twice for the same event.\<close>

definition quiet_env :: "unit env" where
  "quiet_env = (\<lambda>_. [])"




text \<open>Callbacks 1 and 2 registered for one event, and a program that emits it.\<close>

definition emit_prog :: "unit cmd list" where
  "emit_prog = [Call (Emit ''e'' ())]"

definition subscribed :: "unit bus" where
  "subscribed = snd (on ''e'' 2 (snd (on ''e'' 1 EventBus_new)))"


section \<open>PerformanceMonitor\<close>

text \<open>
  Times are the values of \<^verbatim>\<open>performance.now()\<close>, taken here as rationals, and handed to
  the functions that read the clock. \<^verbatim>\<open>beginTime\<close> is \<^verbatim>\<open>undefined\<close> until \<^verbatim>\<open>begin\<close> has
  run, and a frame time computed from it is \<^verbatim>\<open>NaN\<close>: both are \<open>None\<close>. The four
  thresholds are fields the class sets once and never assigns again.
\<close>

record settings =
  pixelRatio :: rat
  shadows :: bool
  particles :: nat
  antialiasing :: bool

definition qualityLevels :: "(string \<times> settings) list" where
  "qualityLevels =
     [(''HIGH'', \<lparr>pixelRatio = 2, shadows = True, particles = 1000, antialiasing = True\<rparr>),
      (''MEDIUM'', \<lparr>pixelRatio = 3 / 2, shadows = True, particles = 500, antialiasing = True\<rparr>),
      (''LOW'', \<lparr>pixelRatio = 1, shadows = False, particles = 200, antialiasing = False\<rparr>)]"

text \<open>
  \<^verbatim>\<open>this.qualityLevels[quality]\<close> is a property read on an object literal: it finds the
  three own properties and, through the prototype chain, every property of
  \<^verbatim>\<open>Object.prototype\<close>, whose values are functions or objects and so are truthy.
\<close>

definition object_prototype :: "string list" where
  "object_prototype =
     [''constructor'', ''hasOwnProperty'', ''isPrototypeOf'', ''propertyIsEnumerable'',
      ''toLocaleString'', ''toString'', ''valueOf'', ''__proto__'',
      ''__defineGetter__'', ''__defineSetter__'', ''__lookupGetter__'', ''__lookupSetter__'']"

datatype jsvalue = Settings settings | Inherited string

definition qualityLevels_get :: "string \<Rightarrow> jsvalue option" where
  "qualityLevels_get quality =
     (case map_of qualityLevels quality of
        Some s \<Rightarrow> Some (Settings s)
      | None \<Rightarrow> if quality \<in> set object_prototype then Some (Inherited quality) else None)"

datatype payload = QualityChanged string jsvalue | FpsUpdate int

datatype console_line = Warn string | Log string int

record monitor =
  fps :: int
  frameTime :: "rat option"
  lastTime :: rat
  frames :: nat
  lastFpsUpdate :: rat
  currentQuality :: string
  autoQualityAdjust :: bool
  frameTimes :: "rat option list"
  beginTime :: "rat option"
  emitted :: "(event \<times> payload) list"
  console_log :: "console_line list"

text \<open>
  \<open>emitted\<close> lists the calls \<^verbatim>\<open>this.eventBus.emit(name, payload)\<close> in order and
  \<open>console_log\<close> the lines written to the console. The callbacks the bus then runs are
  outside this class and are taken not to call back into it.
\<close>

definition fpsUpdateInterval :: rat where
  "fpsUpdateInterval = 1000"

definition targetFPS :: int where
  "targetFPS = 60"

definition minAcceptableFPS :: int where
  "minAcceptableFPS = 30"

definition maxFrameTimeSamples :: nat where
  "maxFrameTimeSamples = 60"

definition PerformanceMonitor_new :: "rat \<Rightarrow> rat \<Rightarrow> monitor" where
  "PerformanceMonitor_new now1 now2 =
     \<lparr>fps = 60, frameTime = Some 0, lastTime = now1, frames = 0, lastFpsUpdate = now2,
      currentQuality = ''HIGH'', autoQualityAdjust = True, frameTimes = [],
      beginTime = None, emitted = [], console_log = []\<rparr>"

definition js_sub :: "rat \<Rightarrow> rat option \<Rightarrow> rat option" where
  "js_sub a b = (case b of None \<Rightarrow> None | Some y \<Rightarrow> Some (a - y))"

definition js_add :: "rat option \<Rightarrow> rat option \<Rightarrow> rat option" where
  "js_add a b = (case a of None \<Rightarrow> None | Some x \<Rightarrow> (case b of None \<Rightarrow> None | Some y \<Rightarrow> Some (x + y)))"

definition js_gt :: "rat option \<Rightarrow> rat \<Rightarrow> bool" where
  "js_gt a c = (case a of None \<Rightarrow> False | Some x \<Rightarrow> x > c)"

definition js_lt :: "rat option \<Rightarrow> rat \<Rightarrow> bool" where
  "js_lt a c = (case a of None \<Rightarrow> False | Some x \<Rightarrow> x < c)"

definition Math_round :: "rat \<Rightarrow> int" where
  "Math_round x = \<lfloor>x + 1 / 2\<rfloor>"

definition begin_frame :: "rat \<Rightarrow> monitor \<Rightarrow> monitor" where
  "begin_frame now st = st\<lparr>beginTime := Some now\<rparr>"

definition getAverageFrameTime :: "monitor \<Rightarrow> rat option" where
  "getAverageFrameTime st =
     (if length (frameTimes st) = 0 then Some 0
      else (case foldl js_add (Some 0) (frameTimes st) of
              None \<Rightarrow> None
            | Some s \<Rightarrow> Some (s / of_nat (length (frameTimes st)))))"

definition setQuality :: "string \<Rightarrow> monitor \<Rightarrow> monitor" where
  "setQuality quality st =
     (case qualityLevels_get quality of
        None \<Rightarrow> st\<lparr>console_log := console_log st @ [Warn (''Invalid quality level: '' @ quality)]\<rparr>
      | Some v \<Rightarrow>
          st\<lparr>currentQuality := quality,
             emitted := emitted st @ [(''performance:quality-changed'', QualityChanged quality v)]\<rparr>)"

definition adjustQuality :: "monitor \<Rightarrow> monitor" where
  "adjustQuality st =
     (let avgFrameTime = getAverageFrameTime st;
          currentFPS = fps st;
          st1 = (if currentFPS < minAcceptableFPS \<and> js_gt avgFrameTime 33 then
                   (if currentQuality st = ''HIGH'' then
                      (let s = setQuality ''MEDIUM'' st
                       in s\<lparr>console_log := console_log s @ [Log ''Quality downgraded to MEDIUM'' currentFPS]\<rparr>)
                    else if currentQuality st = ''MEDIUM'' then
                      (let s = setQuality ''LOW'' st
                       in s\<lparr>console_log := console_log s @ [Log ''Quality downgraded to LOW'' currentFPS]\<rparr>)
                    else st)
                 else st)
      in (if currentFPS \<ge> targetFPS \<and> js_lt avgFrameTime 16 then
            (if currentQuality st1 = ''LOW'' then
               (let s = setQuality ''MEDIUM'' st1
                in s\<lparr>console_log := console_log s @ [Log ''Quality upgraded to MEDIUM'' currentFPS]\<rparr>)
             else if currentQuality st1 = ''MEDIUM'' then
               (let s = setQuality ''HIGH'' st1
                in s\<lparr>console_log := console_log s @ [Log ''Quality upgraded to HIGH'' currentFPS]\<rparr>)
             else st1)
          else st1))"

definition end_frame :: "rat \<Rightarrow> monitor \<Rightarrow> monitor" where
  "end_frame currentTime st =
     (let st1 = st\<lparr>frameTime := js_sub currentTime (beginTime st), frames := frames st + 1\<rparr>;
          st2 = st1\<lparr>frameTimes := frameTimes st1 @ [frameTime st1]\<rparr>;
          st3 = (if length (frameTimes st2) > maxFrameTimeSamples
                 then st2\<lparr>frameTimes := tl (frameTimes st2)\<rparr> else st2);
          st4 = (if currentTime - lastFpsUpdate st3 \<ge> fpsUpdateInterval then
                   (let s1 = st3\<lparr>fps := Math_round (of_nat (frames st3 * 1000) /
                                                    (currentTime - lastFpsUpdate st3)),
                                  frames := 0, lastFpsUpdate := currentTime\<rparr>;
                        s2 = (if autoQualityAdjust s1 then adjustQuality s1 else s1)
                    in s2\<lparr>emitted := emitted s2 @ [(''performance:fps'', FpsUpdate (fps s2))]\<rparr>)
                 else st3)
      in st4\<lparr>lastTime := currentTime\<rparr>)"

definition getFPS :: "monitor \<Rightarrow> int" where
  "getFPS st = fps st"

definition getQuality :: "monitor \<Rightarrow> string" where
  "getQuality st = currentQuality st"



text \<open>An evaluation tick is a call of \<^verbatim>\<open>end\<close> that finds the update interval elapsed.\<close>

definition evaluation_tick :: "rat \<Rightarrow> monitor \<Rightarrow> bool" where
  "evaluation_tick currentTime st = (currentTime - lastFpsUpdate st \<ge> fpsUpdateInterval)"

text \<open>The steps of the state machine as the specification words them.\<close>

definition spec_step_down :: "string \<Rightarrow> string" where
  "spec_step_down q = (if q = ''HIGH'' then ''MEDIUM'' else if q = ''MEDIUM'' then ''LOW'' else q)"

definition spec_step_up :: "string \<Rightarrow> string" where
  "spec_step_up q = (if q = ''LOW'' then ''MEDIUM'' else if q = ''MEDIUM'' then ''HIGH'' else q)"

definition level_rank :: "string \<Rightarrow> nat option" where
  "level_rank q = (if q = ''LOW'' then Some 0 else if q = ''MEDIUM'' then Some 1
                   else if q = ''HIGH'' then Some 2 else None)"

definition one_step :: "string \<Rightarrow> string \<Rightarrow> bool" where
  "one_step q q' =
     (q' = q \<or> (case level_rank q of
                   None \<Rightarrow> False
                 | Some r \<Rightarrow> (case level_rank q' of
                                None \<Rightarrow> False
                              | Some r' \<Rightarrow> r' = Suc r \<or> r = Suc r')))"

subsection \<open>States used in the proofs\<close>

text \<open>The state of an evaluation tick when the adjustment is about to run.\<close>

definition before_adjust :: "rat \<Rightarrow> monitor \<Rightarrow> monitor" where
  "before_adjust currentTime st =
     st\<lparr>frameTime := js_sub currentTime (beginTime st),
        frameTimes := (if length (frameTimes st) + 1 > maxFrameTimeSamples
                       then tl (frameTimes st @ [js_sub currentTime (beginTime st)])
                       else frameTimes st @ [js_sub currentTime (beginTime st)]),
        fps := Math_round (of_nat ((frames st + 1) * 1000) / (currentTime - lastFpsUpdate st)),
        frames := 0, lastFpsUpdate := currentTime\<rparr>"

definition slow_start :: monitor where
  "slow_start = begin_frame 0 (PerformanceMonitor_new 0 0)"



section \<open>Properties of the event bus\<close>

subsection \<open>What a call that comes back has done\<close>

declare emit.simps(2) [simp del] forEach.simps(2) [simp del] listener.simps [simp del]

lemma listener_Returned:
  "listener n env oflag e d h st = Some (r, st') \<Longrightarrow> r = Returned"
  by (simp add: listener.simps split: option.splits prod.splits outcome.splits)

lemma listener_Some:
  assumes "listener n env oflag e d h st = Some (r, st')"
  shows "r = Returned \<and>
         (call n env (env h) (st\<lparr>calls := calls st @ [(e, h, d)]\<rparr>) = Some (Returned, st') \<or>
          (\<exists>x st1. call n env (env h) (st\<lparr>calls := calls st @ [(e, h, d)]\<rparr>) = Some (Threw x, st1) \<and>
             st' = st1\<lparr>error_log := error_log st1 @
                      [if oflag then OnceListenerError e x else ListenerError e x]\<rparr>))"
  using assms by (auto simp add: listener.simps split: option.splits prod.splits outcome.splits)

lemma forEach_Suc_Some:
  assumes "forEach (Suc n) env oflag e d a i st = Some (r, st')"
  shows "(\<not> i < length (store st a) \<and> r = Returned \<and> st' = st) \<or>
         (i < length (store st a) \<and> store st a ! i = None \<and>
            forEach n env oflag e d a (Suc i) st = Some (r, st')) \<or>
         (\<exists>h st1. i < length (store st a) \<and> store st a ! i = Some h \<and>
            listener n env oflag e d h st = Some (Returned, st1) \<and>
            forEach n env oflag e d a (Suc i) st1 = Some (r, st'))"
proof (cases "i < length (store st a)")
  case False
  with assms show ?thesis by (simp add: forEach.simps)
next
  case True
  show ?thesis
  proof (cases "store st a ! i")
    case None
    with True assms show ?thesis by (simp add: forEach.simps)
  next
    case (Some h)
    show ?thesis
    proof (cases "listener n env oflag e d h st")
      case None
      with True Some assms show ?thesis by (simp add: forEach.simps)
    next
      case (Some p)
      obtain r1 st1 where p: "p = (r1, st1)" by (cases p)
      have r1: "r1 = Returned"
        using listener_Returned [of n env oflag e d h st r1 st1] Some p by simp
      have "forEach n env oflag e d a (Suc i) st1 = Some (r, st')"
        using True \<open>store st a ! i = Some h\<close> Some p r1 assms by (simp add: forEach.simps)
      then show ?thesis
        using True \<open>store st a ! i = Some h\<close> Some p r1 by simp
    qed
  qed
qed

lemma forEach_Returned:
  "forEach n env oflag e d a i st = Some (r, st') \<Longrightarrow> r = Returned"
proof (induction n arbitrary: i st)
  case 0
  then show ?case by simp
next
  case (Suc n)
  from forEach_Suc_Some [OF Suc.prems] Suc.IH show ?case by blast
qed

lemma emit_Suc_Some:
  assumes "emit (Suc n) env e d st = Some (r, st')"
  shows "r = Returned \<and>
         (\<exists>st1. (case listeners st e of
                   None \<Rightarrow> st1 = st
                 | Some a \<Rightarrow> forEach n env False e d a 0 st = Some (Returned, st1)) \<and>
                (case onceListeners st1 e of
                   None \<Rightarrow> st' = st1
                 | Some b \<Rightarrow> (\<exists>st2. forEach n env True e d b 0 st1 = Some (Returned, st2) \<and>
                      st' = st2\<lparr>onceListeners := (onceListeners st2)(e := None)\<rparr>)))"
proof -
  let ?first = "case listeners st e of None \<Rightarrow> Some (Returned, st)
                | Some a \<Rightarrow> forEach n env False e d a 0 st"
  show ?thesis
  proof (cases ?first)
    case None
    with assms show ?thesis by (simp add: emit.simps)
  next
    case (Some p)
    obtain r1 st1 where p: "p = (r1, st1)" by (cases p)
    have r1: "r1 = Returned"
      using Some p forEach_Returned [of n env False e d _ 0 st r1 st1]
      by (simp split: option.splits)
    have first: "case listeners st e of None \<Rightarrow> st1 = st
                 | Some a \<Rightarrow> forEach n env False e d a 0 st = Some (Returned, st1)"
      using Some p r1 by (simp split: option.splits)
    show ?thesis
    proof (cases "onceListeners st1 e")
      case None
      with assms Some p r1 first show ?thesis
        by (auto simp add: emit.simps)
    next
      case (Some b)
      note b = this
      show ?thesis
      proof (cases "forEach n env True e d b 0 st1")
        case None
        with assms \<open>?first = Some p\<close> p r1 b show ?thesis by (simp add: emit.simps)
      next
        case (Some p2)
        obtain r2 st2 where p2: "p2 = (r2, st2)" by (cases p2)
        have r2: "r2 = Returned"
          using Some p2 forEach_Returned [of n env True e d b 0 st1 r2 st2] by simp
        have "r = Returned \<and> st' = st2\<lparr>onceListeners := (onceListeners st2)(e := None)\<rparr>"
          using assms \<open>?first = Some p\<close> p r1 b Some p2 r2 by (simp add: emit.simps)
        then show ?thesis
          using first b Some p2 r2 by auto
      qed
    qed
  qed
qed


lemma call_Cons_Some:
  assumes "call n env (Call c # cs) st = Some (r, st')"
  shows "(\<exists>x. apply_op n env c st = Some (Threw x, st') \<and> r = Threw x) \<or>
         (\<exists>st1. apply_op n env c st = Some (Returned, st1) \<and> call n env cs st1 = Some (r, st'))"
  using assms by (auto split: option.splits prod.splits outcome.splits)

subsection \<open>Properties kept by every run\<close>

lemma closed_systemD:
  assumes "closed_system I R Gs Gh Allowed env"
  shows "R st st"
    and "R s1 s2 \<Longrightarrow> R s2 s3 \<Longrightarrow> R s1 s3"
    and "I st \<Longrightarrow> Allowed (On e h) \<Longrightarrow> I (snd (on e h st)) \<and> R st (snd (on e h st))"
    and "I st \<Longrightarrow> Allowed (Once e h) \<Longrightarrow> I (once e h st) \<and> R st (once e h st)"
    and "I st \<Longrightarrow> I (off e h st) \<and> R st (off e h st)"
    and "I st \<Longrightarrow> I (clear e st) \<and> R st (clear e st)"
    and "I st \<Longrightarrow> I (clearAll st) \<and> R st (clearAll st)"
    and "I st \<Longrightarrow> Gh e h \<Longrightarrow>
          I (st\<lparr>calls := calls st @ [(e, h, d)]\<rparr>) \<and> R st (st\<lparr>calls := calls st @ [(e, h, d)]\<rparr>)"
    and "I st \<Longrightarrow>
          I (st\<lparr>error_log := error_log st @ [l]\<rparr>) \<and> R st (st\<lparr>error_log := error_log st @ [l]\<rparr>)"
    and "I st \<Longrightarrow>
          I (st\<lparr>onceListeners := (onceListeners st)(e := None)\<rparr>) \<and>
          R st (st\<lparr>onceListeners := (onceListeners st)(e := None)\<rparr>)"
    and "I st \<Longrightarrow> Gs e a st \<Longrightarrow> i < length (store st a) \<Longrightarrow> store st a ! i = Some h \<Longrightarrow> Gh e h"
    and "I st \<Longrightarrow> listeners st e = Some a \<or> onceListeners st e = Some a \<Longrightarrow> Gs e a st"
    and "Gs e a st \<Longrightarrow> R st st' \<Longrightarrow> Gs e a st'"
    and "Call c \<in> set (env h) \<Longrightarrow> Allowed c"
  using assms unfolding closed_system_def by meson+


lemma emit_okD:
  "emit_ok I R env n \<Longrightarrow> I st \<Longrightarrow> emit n env e d st = Some (r, st') \<Longrightarrow> I st' \<and> R st st'"
  unfolding emit_ok_def by meson

lemma forEach_okD:
  "forEach_ok I R Gs env n \<Longrightarrow> I st \<Longrightarrow> Gs e a st \<Longrightarrow>
   forEach n env oflag e d a i st = Some (r, st') \<Longrightarrow> I st' \<and> R st st'"
  unfolding forEach_ok_def by meson

lemma listener_okD:
  "listener_ok I R Gh env n \<Longrightarrow> I st \<Longrightarrow> Gh e h \<Longrightarrow>
   listener n env oflag e d h st = Some (r, st') \<Longrightarrow> I st' \<and> R st st'"
  unfolding listener_ok_def by meson

lemma call_okD:
  "call_ok I R Allowed env n \<Longrightarrow> I st \<Longrightarrow> (\<forall>c. Call c \<in> set cs \<longrightarrow> Allowed c) \<Longrightarrow>
   call n env cs st = Some (r, st') \<Longrightarrow> I st' \<and> R st st'"
  unfolding call_ok_def by meson

lemma apply_op_okD:
  "apply_op_ok I R Allowed env n \<Longrightarrow> I st \<Longrightarrow> Allowed c \<Longrightarrow>
   apply_op n env c st = Some (r, st') \<Longrightarrow> I st' \<and> R st st'"
  unfolding apply_op_ok_def by meson

lemma apply_op_step:
  assumes sys: "closed_system I R Gs Gh Allowed env" and emit: "emit_ok I R env n"
  shows "apply_op_ok I R Allowed env n"
  unfolding apply_op_ok_def
proof (intro allI impI)
  fix c :: "'a op" and st r st'
  assume I: "I st" and al: "Allowed c" and ap: "apply_op n env c st = Some (r, st')"
  show "I st' \<and> R st st'"
  proof (cases c)
    case (On e h)
    with ap have "st' = snd (on e h st)" by simp
    with closed_systemD(3) [OF sys I] al On show ?thesis by simp
  next
    case (Once e h)
    with ap have "st' = once e h st" by simp
    with closed_systemD(4) [OF sys I] al Once show ?thesis by simp
  next
    case (Off e h)
    with ap have "st' = off e h st" by simp
    with closed_systemD(5) [OF sys I] show ?thesis by simp
  next
    case (Emit e d)
    with ap have "emit n env e d st = Some (r, st')" by simp
    then show ?thesis by (rule emit_okD [OF emit I])
  next
    case (Clear e)
    with ap have "st' = clear e st" by simp
    with closed_systemD(6) [OF sys I] show ?thesis by simp
  next
    case ClearAll
    with ap have "st' = clearAll st" by simp
    with closed_systemD(7) [OF sys I] show ?thesis by simp
  qed
qed

lemma call_step:
  assumes sys: "closed_system I R Gs Gh Allowed env" and ap: "apply_op_ok I R Allowed env n"
  shows "call_ok I R Allowed env n"
proof -
  note refl = closed_systemD(1) [OF sys] and trans = closed_systemD(2) [OF sys]
  have "I st \<Longrightarrow> (\<forall>c. Call c \<in> set cs \<longrightarrow> Allowed c) \<Longrightarrow>
        call n env cs st = Some (r, st') \<Longrightarrow> I st' \<and> R st st'" for cs st r st'
  proof (induction cs arbitrary: st)
    case Nil
    then show ?case using refl by simp
  next
    case (Cons c cs)
    show ?case
    proof (cases c)
      case (Throw x)
      with Cons.prems refl show ?thesis by simp
    next
      case (Call c1)
      have al: "Allowed c1" using Cons.prems(2) Call by simp
      from Cons.prems(3) [unfolded Call, THEN call_Cons_Some]
      show ?thesis
      proof (elim disjE exE conjE)
        fix x
        assume "apply_op n env c1 st = Some (Threw x, st')"
        then show ?thesis by (rule apply_op_okD [OF ap Cons.prems(1) al])
      next
        fix st1
        assume a1: "apply_op n env c1 st = Some (Returned, st1)"
          and a2: "call n env cs st1 = Some (r, st')"
        have s1: "I st1 \<and> R st st1"
          by (rule apply_op_okD [OF ap Cons.prems(1) al a1])
        have "I st' \<and> R st1 st'"
          using Cons.IH [of st1] s1 Cons.prems(2) a2 by simp
        with s1 trans [of st st1 st'] show ?thesis by simp
      qed
    qed
  qed
  then show ?thesis unfolding call_ok_def by meson
qed

lemma listener_step:
  assumes sys: "closed_system I R Gs Gh Allowed env" and call: "call_ok I R Allowed env n"
  shows "listener_ok I R Gh env n"
  unfolding listener_ok_def
proof (intro allI impI)
  fix oflag e d h st r st'
  assume I: "I st" and g: "Gh e h" and l: "listener n env oflag e d h st = Some (r, st')"
  let ?s = "st\<lparr>calls := calls st @ [(e, h, d)]\<rparr>"
  note trans = closed_systemD(2) [OF sys]
  have s: "I ?s \<and> R st ?s"
    by (rule closed_systemD(8) [OF sys I g])
  then have Is: "I ?s" by simp
  have body: "\<forall>c. Call c \<in> set (env h) \<longrightarrow> Allowed c"
    using closed_systemD(14) [OF sys] by simp
  from listener_Some [OF l]
  have "call n env (env h) ?s = Some (Returned, st') \<or>
        (\<exists>x st1. call n env (env h) ?s = Some (Threw x, st1) \<and>
           st' = st1\<lparr>error_log := error_log st1 @
                    [if oflag then OnceListenerError e x else ListenerError e x]\<rparr>)"
    by simp
  then show "I st' \<and> R st st'"
  proof (elim disjE exE conjE)
    assume c: "call n env (env h) ?s = Some (Returned, st')"
    have "I st' \<and> R ?s st'"
      by (rule call_okD [OF call Is body c])
    with s trans [of st ?s st'] show ?thesis by simp
  next
    fix x st1
    assume c: "call n env (env h) ?s = Some (Threw x, st1)"
      and st': "st' = st1\<lparr>error_log := error_log st1 @
                    [if oflag then OnceListenerError e x else ListenerError e x]\<rparr>"
    have s1: "I st1 \<and> R ?s st1"
      by (rule call_okD [OF call Is body c])
    then have "I st1" by simp
    from closed_systemD(9) [OF sys this] st' have "I st' \<and> R st1 st'" by simp
    with s s1 trans [of st ?s st1] trans [of st st1 st'] show ?thesis by simp
  qed
qed

lemma forEach_step:
  assumes sys: "closed_system I R Gs Gh Allowed env"
    and lis: "listener_ok I R Gh env n" and fe: "forEach_ok I R Gs env n"
  shows "forEach_ok I R Gs env (Suc n)"
  unfolding forEach_ok_def
proof (intro allI impI)
  fix oflag e d a i st r st'
  assume I: "I st" and g: "Gs e a st"
    and f: "forEach (Suc n) env oflag e d a i st = Some (r, st')"
  note refl = closed_systemD(1) [OF sys] and trans = closed_systemD(2) [OF sys]
  from forEach_Suc_Some [OF f]
  show "I st' \<and> R st st'"
  proof (elim disjE exE conjE)
    assume "st' = st"
    with I refl show ?thesis by simp
  next
    assume "forEach n env oflag e d a (Suc i) st = Some (r, st')"
    then show ?thesis by (rule forEach_okD [OF fe I g])
  next
    fix h st1
    assume i: "i < length (store st a)" and h: "store st a ! i = Some h"
      and l: "listener n env oflag e d h st = Some (Returned, st1)"
      and f1: "forEach n env oflag e d a (Suc i) st1 = Some (r, st')"
    have gh: "Gh e h"
      by (rule closed_systemD(11) [OF sys I g i h])
    have s1: "I st1 \<and> R st st1"
      by (rule listener_okD [OF lis I gh l])
    then have I1: "I st1" and R1: "R st st1" by simp_all
    have g1: "Gs e a st1"
      by (rule closed_systemD(13) [OF sys g R1])
    have "I st' \<and> R st1 st'"
      by (rule forEach_okD [OF fe I1 g1 f1])
    with R1 trans [of st st1 st'] show ?thesis by simp
  qed
qed

lemma emit_step:
  assumes sys: "closed_system I R Gs Gh Allowed env" and fe: "forEach_ok I R Gs env n"
  shows "emit_ok I R env (Suc n)"
  unfolding emit_ok_def
proof (intro allI impI)
  fix e d st r st'
  assume I: "I st" and em: "emit (Suc n) env e d st = Some (r, st')"
  note refl = closed_systemD(1) [OF sys] and trans = closed_systemD(2) [OF sys]
  from emit_Suc_Some [OF em] obtain st1 where
    first: "case listeners st e of None \<Rightarrow> st1 = st
            | Some a \<Rightarrow> forEach n env False e d a 0 st = Some (Returned, st1)"
    and second: "case onceListeners st1 e of None \<Rightarrow> st' = st1
            | Some b \<Rightarrow> (\<exists>st2. forEach n env True e d b 0 st1 = Some (Returned, st2) \<and>
                 st' = st2\<lparr>onceListeners := (onceListeners st2)(e := None)\<rparr>)"
    by meson
  have s1: "I st1 \<and> R st st1"
  proof (cases "listeners st e")
    case None
    with first I refl show ?thesis by simp
  next
    case (Some a)
    with first have f: "forEach n env False e d a 0 st = Some (Returned, st1)" by simp
    have "Gs e a st" using closed_systemD(12) [OF sys I, of e a] Some by simp
    then show ?thesis
      using f by (rule forEach_okD [OF fe I])
  qed
  then have I1: "I st1" and R1: "R st st1" by simp_all
  have "I st' \<and> R st1 st'"
  proof (cases "onceListeners st1 e")
    case None
    with second I1 refl show ?thesis by simp
  next
    case (Some b)
    with second obtain st2 where f: "forEach n env True e d b 0 st1 = Some (Returned, st2)"
      and st': "st' = st2\<lparr>onceListeners := (onceListeners st2)(e := None)\<rparr>"
      by auto
    have "Gs e b st1" using closed_systemD(12) [OF sys I1, of e b] Some by simp
    then have s2: "I st2 \<and> R st1 st2"
      using f by (rule forEach_okD [OF fe I1])
    then have "I st2" by simp
    from closed_systemD(10) [OF sys this, of e] st' have "I st' \<and> R st2 st'" by simp
    with s2 trans [of st1 st2 st'] show ?thesis by simp
  qed
  with R1 trans [of st st1 st'] show "I st' \<and> R st st'" by simp
qed

lemma closed_system_emit_forEach:
  assumes sys: "closed_system I R Gs Gh Allowed env"
  shows "emit_ok I R env n \<and> forEach_ok I R Gs env n"
proof (induction n)
  case 0
  show ?case by (simp add: emit_ok_def forEach_ok_def)
next
  case (Suc n)
  then have em: "emit_ok I R env n" and fe: "forEach_ok I R Gs env n" by simp_all
  have "apply_op_ok I R Allowed env n"
    using sys em by (rule apply_op_step)
  then have "call_ok I R Allowed env n"
    using sys by (intro call_step)
  then have "listener_ok I R Gh env n"
    using sys by (intro listener_step)
  then have "forEach_ok I R Gs env (Suc n)"
    using sys fe by (intro forEach_step)
  moreover have "emit_ok I R env (Suc n)"
    using sys fe by (rule emit_step)
  ultimately show ?case by simp
qed

lemma closed_system_call:
  assumes sys: "closed_system I R Gs Gh Allowed env"
    and I: "I st" and al: "\<forall>c. Call c \<in> set cs \<longrightarrow> Allowed c"
    and c: "call n env cs st = Some (r, st')"
  shows "I st' \<and> R st st'"
proof -
  have "emit_ok I R env n"
    using closed_system_emit_forEach [OF sys] by simp
  then have "apply_op_ok I R Allowed env n"
    using sys by (intro apply_op_step)
  then have "call_ok I R Allowed env n"
    using sys by (intro call_step)
  then show ?thesis
    using I al c by (rule call_okD)
qed

lemma closed_system_emit:
  assumes sys: "closed_system I R Gs Gh Allowed env"
    and I: "I st" and e: "emit n env e d st = Some (r, st')"
  shows "I st' \<and> R st st'"
proof -
  have "emit_ok I R env n"
    using closed_system_emit_forEach [OF sys] by simp
  then show ?thesis using I e by (rule emit_okD)
qed

subsection \<open>Emitting to callbacks that do not call the bus\<close>






lemma set_live: "set (live s) = {h. Some h \<in> set s}"
  by (induction s rule: live.induct) auto



subsection \<open>Errors raised by callbacks\<close>




subsection \<open>Well-formed buses and the listener count\<close>

lemma live_append: "live (s @ t) = live s @ live t"
  by (induction s rule: live.induct) simp_all

lemma live_set_add:
  "live (set_add h s) = (if h \<in> set (live s) then live s else live s @ [h])"
  by (simp add: set_add_def set_has_def set_live live_append)

lemma live_set_delete: "live (set_delete h s) = removeAll h (live s)"
  by (induction s rule: live.induct) (auto simp: set_delete_def)

lemma distinct_live_set_add: "distinct (live s) \<Longrightarrow> distinct (live (set_add h s))"
  by (simp add: live_set_add)

lemma distinct_live_set_delete: "distinct (live s) \<Longrightarrow> distinct (live (set_delete h s))"
  by (simp add: live_set_delete distinct_removeAll)

lemma on_Some:
  "listeners st e = Some a \<Longrightarrow>
   snd (on e h st) = st\<lparr>store := (store st)(a := set_add h (store st a))\<rparr>"
  by (simp add: on_def)

lemma on_None:
  "listeners st e = None \<Longrightarrow>
   snd (on e h st) = st\<lparr>store := (store st)(next_addr st := [Some h]),
                         next_addr := Suc (next_addr st),
                         listeners := (listeners st)(e \<mapsto> next_addr st)\<rparr>"
  by (simp add: on_def set_add_def set_has_def)

lemma once_Some:
  "onceListeners st e = Some b \<Longrightarrow>
   once e h st = st\<lparr>store := (store st)(b := set_add h (store st b))\<rparr>"
  by (simp add: once_def)

lemma once_None:
  "onceListeners st e = None \<Longrightarrow>
   once e h st = st\<lparr>store := (store st)(next_addr st := [Some h]),
                     next_addr := Suc (next_addr st),
                     onceListeners := (onceListeners st)(e \<mapsto> next_addr st)\<rparr>"
  by (simp add: once_def set_add_def set_has_def)

lemma off_fields:
  "listeners (off e h st) = listeners st"
  "onceListeners (off e h st) = onceListeners st"
  "next_addr (off e h st) = next_addr st"
  "calls (off e h st) = calls st"
  "error_log (off e h st) = error_log st"
  by (simp_all add: off_def Let_def split: option.splits)

lemma store_off:
  "store (off e h st) a =
     (if listeners st e = Some a \<or> onceListeners st e = Some a
      then set_delete h (store st a) else store st a)"
  by (auto simp: off_def Let_def set_delete_def split: option.splits)

lemma bus_wf_new: "bus_wf EventBus_new"
  by (simp add: bus_wf_def EventBus_new_def)

lemma bus_wf_on: "bus_wf st \<Longrightarrow> bus_wf (snd (on e h st))"
proof (cases "listeners st e")
  case None
  assume "bus_wf st"
  then show ?thesis
    unfolding on_None [OF None] bus_wf_def
    by (auto simp: less_Suc_eq)
next
  case (Some a)
  assume "bus_wf st"
  then show ?thesis
    unfolding on_Some [OF Some] bus_wf_def
    by (simp add: distinct_live_set_add)
qed

lemma bus_wf_once: "bus_wf st \<Longrightarrow> bus_wf (once e h st)"
proof (cases "onceListeners st e")
  case None
  assume "bus_wf st"
  then show ?thesis
    unfolding once_None [OF None] bus_wf_def
    by (auto simp: less_Suc_eq)
next
  case (Some a)
  assume "bus_wf st"
  then show ?thesis
    unfolding once_Some [OF Some] bus_wf_def
    by (simp add: distinct_live_set_add)
qed

lemma bus_wf_off: "bus_wf st \<Longrightarrow> bus_wf (off e h st)"
  unfolding bus_wf_def off_fields store_off
  by (simp add: distinct_live_set_delete)

lemma bus_wf_clear: "bus_wf st \<Longrightarrow> bus_wf (clear e st)"
  unfolding bus_wf_def clear_def by simp

lemma bus_wf_clearAll: "bus_wf st \<Longrightarrow> bus_wf (clearAll st)"
  unfolding bus_wf_def clearAll_def by simp

lemma bus_wf_closed:
  "closed_system bus_wf (\<lambda>_ _. True) (\<lambda>_ _ _. True) (\<lambda>_ _. True) (\<lambda>_. True) env"
  unfolding closed_system_def
  by (simp add: bus_wf_on bus_wf_once bus_wf_off bus_wf_clear bus_wf_clearAll)
     (simp add: bus_wf_def)


lemma bus_wf_emit:
  "bus_wf st \<Longrightarrow> emit n env e d st = Some (r, st') \<Longrightarrow> bus_wf st'"
  using closed_system_emit [OF bus_wf_closed, of st n env e d r st'] by simp




subsection \<open>Registering a callback twice\<close>



lemma fst_on: "fst (on e h st) = Unsubscribe e h"
  by (simp add: on_def Let_def)

lemma set_has_set_delete: "\<not> set_has h (set_delete h s)"
  by (auto simp: set_has_def set_delete_def)

lemma off_removes: "\<not> is_listener (off e h st) e h \<and> \<not> is_once_listener (off e h st) e h"
  by (simp add: is_listener_def is_once_listener_def off_fields store_off set_has_set_delete
      split: option.splits)

lemma on_fields:
  "onceListeners (snd (on e h st)) = onceListeners st"
  "calls (snd (on e h st)) = calls st"
  "error_log (snd (on e h st)) = error_log st"
  by (simp_all add: on_def Let_def split: option.splits)












subsection \<open>Once listeners\<close>

lemma once_fields:
  "listeners (once e h st) = listeners st"
  "calls (once e h st) = calls st"
  "error_log (once e h st) = error_log st"
  by (simp_all add: once_def Let_def split: option.splits)







subsection \<open>After unsubscribing\<close>

lemma set_has_set_add: "set_has h (set_add h1 s) \<longleftrightarrow> h = h1 \<or> set_has h s"
  by (auto simp: set_has_def set_add_def)

lemma set_has_set_delete_other: "set_has h (set_delete h1 s) \<Longrightarrow> set_has h s"
  by (auto simp: set_has_def set_delete_def split: if_splits)

lemma stays_clean_on:
  assumes "no_register e h (On e1 h1)"
    and fresh: "\<forall>e' a. listeners st e' = Some a \<or> onceListeners st e' = Some a \<longrightarrow> a < next_addr st"
  shows "stays_clean e h st (snd (on e1 h1 st))"
proof (cases "listeners st e1")
  case None
  show ?thesis
    unfolding stays_clean_def on_None [OF None] clean_def
    by auto
next
  case (Some a1)
  have "h1 \<noteq> h \<or> e1 \<noteq> e" using assms(1) by (auto simp: no_register_def)
  then show ?thesis
    unfolding stays_clean_def on_Some [OF Some] clean_def
    using Some by (auto simp: set_has_set_add)
qed

lemma stays_clean_once:
  assumes "no_register e h (Once e1 h1)"
    and fresh: "\<forall>e' a. listeners st e' = Some a \<or> onceListeners st e' = Some a \<longrightarrow> a < next_addr st"
  shows "stays_clean e h st (once e1 h1 st)"
proof (cases "onceListeners st e1")
  case None
  show ?thesis
    unfolding stays_clean_def once_None [OF None] clean_def
    by auto
next
  case (Some a1)
  have "h1 \<noteq> h \<or> e1 \<noteq> e" using assms(1) by (auto simp: no_register_def)
  then show ?thesis
    unfolding stays_clean_def once_Some [OF Some] clean_def
    using Some by (auto simp: set_has_set_add)
qed

lemma stays_clean_off: "stays_clean e h st (off e1 h1 st)"
  unfolding stays_clean_def clean_def off_fields store_off
  by (auto dest: set_has_set_delete_other)

lemma stays_clean_clear: "stays_clean e h st (clear e1 st)"
  unfolding stays_clean_def clean_def clear_def by simp

lemma stays_clean_clearAll: "stays_clean e h st (clearAll st)"
  unfolding stays_clean_def clean_def clearAll_def by simp

lemma unsubscribed_on:
  assumes u: "unsubscribed e h k st" and al: "no_register e h (On e1 h1)"
  shows "unsubscribed e h k (snd (on e1 h1 st))"
proof -
  have fresh: "\<forall>e' a. listeners st e' = Some a \<or> onceListeners st e' = Some a \<longrightarrow> a < next_addr st"
    using u by (simp add: unsubscribed_def)
  have sc: "stays_clean e h st (snd (on e1 h1 st))"
    using al fresh by (rule stays_clean_on)
  have old: "\<forall>a. listeners st e = Some a \<or> onceListeners st e = Some a \<longrightarrow>
               clean e h (snd (on e1 h1 st)) a"
    using u sc by (simp add: unsubscribed_def stays_clean_def)
  show ?thesis
  proof (cases "listeners st e1")
    case (Some a1)
    with u old show ?thesis
      by (simp add: unsubscribed_def on_fields on_Some [OF Some])
  next
    case None
    have new: "e1 = e \<Longrightarrow> clean e h (snd (on e1 h1 st)) (next_addr st)"
      using al fresh unfolding on_None [OF None] clean_def no_register_def
      by (auto simp: set_has_def)
    have f: "\<forall>e' a. listeners (snd (on e1 h1 st)) e' = Some a \<or>
                    onceListeners (snd (on e1 h1 st)) e' = Some a \<longrightarrow>
                    a < next_addr (snd (on e1 h1 st))"
      using fresh unfolding on_None [OF None] by (auto simp: less_Suc_eq)
    have c: "\<forall>a. listeners (snd (on e1 h1 st)) e = Some a \<or>
                  onceListeners (snd (on e1 h1 st)) e = Some a \<longrightarrow>
                  clean e h (snd (on e1 h1 st)) a"
    proof (intro allI impI)
      fix a
      assume a: "listeners (snd (on e1 h1 st)) e = Some a \<or>
                 onceListeners (snd (on e1 h1 st)) e = Some a"
      show "clean e h (snd (on e1 h1 st)) a"
      proof (cases "e1 = e \<and> a = next_addr st")
        case True
        with new show ?thesis by simp
      next
        case False
        with a have "listeners st e = Some a \<or> onceListeners st e = Some a"
          by (auto simp: on_None [OF None] split: if_splits)
        with old show ?thesis by meson
      qed
    qed
    from f c u show ?thesis
      unfolding unsubscribed_def on_fields by simp
  qed
qed

lemma unsubscribed_once:
  assumes u: "unsubscribed e h k st" and al: "no_register e h (Once e1 h1)"
  shows "unsubscribed e h k (once e1 h1 st)"
proof -
  have fresh: "\<forall>e' a. listeners st e' = Some a \<or> onceListeners st e' = Some a \<longrightarrow> a < next_addr st"
    using u by (simp add: unsubscribed_def)
  have sc: "stays_clean e h st (once e1 h1 st)"
    using al fresh by (rule stays_clean_once)
  have old: "\<forall>a. listeners st e = Some a \<or> onceListeners st e = Some a \<longrightarrow>
               clean e h (once e1 h1 st) a"
    using u sc by (simp add: unsubscribed_def stays_clean_def)
  show ?thesis
  proof (cases "onceListeners st e1")
    case (Some a1)
    with u old show ?thesis
      by (simp add: unsubscribed_def once_fields once_Some [OF Some])
  next
    case None
    have new: "e1 = e \<Longrightarrow> clean e h (once e1 h1 st) (next_addr st)"
      using al fresh unfolding once_None [OF None] clean_def no_register_def
      by (auto simp: set_has_def)
    have f: "\<forall>e' a. listeners (once e1 h1 st) e' = Some a \<or>
                    onceListeners (once e1 h1 st) e' = Some a \<longrightarrow>
                    a < next_addr (once e1 h1 st)"
      using fresh unfolding once_None [OF None] by (auto simp: less_Suc_eq)
    have c: "\<forall>a. listeners (once e1 h1 st) e = Some a \<or>
                  onceListeners (once e1 h1 st) e = Some a \<longrightarrow>
                  clean e h (once e1 h1 st) a"
    proof (intro allI impI)
      fix a
      assume a: "listeners (once e1 h1 st) e = Some a \<or>
                 onceListeners (once e1 h1 st) e = Some a"
      show "clean e h (once e1 h1 st) a"
      proof (cases "e1 = e \<and> a = next_addr st")
        case True
        with new show ?thesis by simp
      next
        case False
        with a have "listeners st e = Some a \<or> onceListeners st e = Some a"
          by (auto simp: once_None [OF None] split: if_splits)
        with old show ?thesis by meson
      qed
    qed
    from f c u show ?thesis
      unfolding unsubscribed_def once_fields by simp
  qed
qed

lemma unsubscribed_off: "unsubscribed e h k st \<Longrightarrow> unsubscribed e h k (off e1 h1 st)"
  using stays_clean_off [of e h st e1 h1]
  by (simp add: unsubscribed_def off_fields stays_clean_def)

lemma unsubscribed_clear: "unsubscribed e h k st \<Longrightarrow> unsubscribed e h k (clear e1 st)"
  using stays_clean_clear [of e h st e1]
  by (auto simp: unsubscribed_def stays_clean_def clear_def split: if_splits)

lemma unsubscribed_clearAll: "unsubscribed e h k st \<Longrightarrow> unsubscribed e h k (clearAll st)"
  by (simp add: unsubscribed_def clearAll_def)

lemma set_drop_snoc: "set (drop k (xs @ [x])) \<subseteq> insert x (set (drop k xs))"
  by (cases "k \<le> length xs") auto

lemma clean_calls: "clean e h (st\<lparr>calls := c\<rparr>) a = clean e h st a"
  by (simp add: clean_def)

lemma clean_error_log: "clean e h (st\<lparr>error_log := l\<rparr>) a = clean e h st a"
  by (simp add: clean_def)

lemma clean_drop_once:
  "clean e h st a \<Longrightarrow> clean e h (st\<lparr>onceListeners := (onceListeners st)(e1 := None)\<rparr>) a"
  by (simp add: clean_def)

lemma unsubscribed_invoke:
  assumes "unsubscribed e h k st" and "may_invoke e h e1 h1"
  shows "unsubscribed e h k (st\<lparr>calls := calls st @ [(e1, h1, d)]\<rparr>) \<and>
         stays_clean e h st (st\<lparr>calls := calls st @ [(e1, h1, d)]\<rparr>)"
proof -
  have "(e1, h1, d) \<noteq> (e, h, d')" for d'
    using assms(2) by (auto simp: may_invoke_def)
  moreover have "\<forall>d'. (e, h, d') \<notin> set (drop k (calls st))"
    using assms(1) by (simp add: unsubscribed_def)
  ultimately have "\<forall>d'. (e, h, d') \<notin> set (drop k (calls st @ [(e1, h1, d)]))"
    using set_drop_snoc [of k "calls st" "(e1, h1, d)"] by blast
  then have "unsubscribed e h k (st\<lparr>calls := calls st @ [(e1, h1, d)]\<rparr>)"
    using assms(1) unfolding unsubscribed_def clean_calls by simp
  then show ?thesis
    by (simp add: stays_clean_def clean_calls)
qed

lemma unsubscribed_closed:
  assumes env: "\<forall>k c. Call c \<in> set (env k) \<longrightarrow> no_register e h c"
  shows "closed_system (unsubscribed e h k) (stays_clean e h) (may_walk e h) (may_invoke e h)
           (no_register e h) env"
  unfolding closed_system_def
proof (intro conjI allI impI)
  fix st :: "'a bus"
  show "stays_clean e h st st" by (simp add: stays_clean_def)
next
  fix s1 s2 s3 :: "'a bus"
  assume "stays_clean e h s1 s2" "stays_clean e h s2 s3"
  then show "stays_clean e h s1 s3" by (simp add: stays_clean_def)
next
  fix e1 h1 and st :: "'a bus"
  assume "unsubscribed e h k st" "no_register e h (On e1 h1)"
  then show "unsubscribed e h k (snd (on e1 h1 st))" by (rule unsubscribed_on)
next
  fix e1 h1 and st :: "'a bus"
  assume "unsubscribed e h k st" and al: "no_register e h (On e1 h1)"
  then have "\<forall>e' a. listeners st e' = Some a \<or> onceListeners st e' = Some a \<longrightarrow> a < next_addr st"
    by (simp add: unsubscribed_def)
  with al show "stays_clean e h st (snd (on e1 h1 st))" by (rule stays_clean_on)
next
  fix e1 h1 and st :: "'a bus"
  assume "unsubscribed e h k st" "no_register e h (Once e1 h1)"
  then show "unsubscribed e h k (once e1 h1 st)" by (rule unsubscribed_once)
next
  fix e1 h1 and st :: "'a bus"
  assume "unsubscribed e h k st" and al: "no_register e h (Once e1 h1)"
  then have "\<forall>e' a. listeners st e' = Some a \<or> onceListeners st e' = Some a \<longrightarrow> a < next_addr st"
    by (simp add: unsubscribed_def)
  with al show "stays_clean e h st (once e1 h1 st)" by (rule stays_clean_once)
next
  fix e1 h1 and st :: "'a bus"
  assume "unsubscribed e h k st"
  then show "unsubscribed e h k (off e1 h1 st)" by (rule unsubscribed_off)
next
  fix e1 h1 and st :: "'a bus"
  show "stays_clean e h st (off e1 h1 st)" by (rule stays_clean_off)
next
  fix e1 and st :: "'a bus"
  assume "unsubscribed e h k st"
  then show "unsubscribed e h k (clear e1 st)" by (rule unsubscribed_clear)
next
  fix e1 and st :: "'a bus"
  show "stays_clean e h st (clear e1 st)" by (rule stays_clean_clear)
next
  fix st :: "'a bus"
  assume "unsubscribed e h k st"
  then show "unsubscribed e h k (clearAll st)" by (rule unsubscribed_clearAll)
next
  fix st :: "'a bus"
  show "stays_clean e h st (clearAll st)" by (rule stays_clean_clearAll)
next
  fix e1 h1 and d :: 'a and st :: "'a bus"
  assume "unsubscribed e h k st" "may_invoke e h e1 h1"
  then show "unsubscribed e h k (st\<lparr>calls := calls st @ [(e1, h1, d)]\<rparr>)"
    by (rule unsubscribed_invoke [THEN conjunct1])
next
  fix e1 h1 and d :: 'a and st :: "'a bus"
  assume "unsubscribed e h k st" "may_invoke e h e1 h1"
  then show "stays_clean e h st (st\<lparr>calls := calls st @ [(e1, h1, d)]\<rparr>)"
    by (rule unsubscribed_invoke [THEN conjunct2])
next
  fix l and st :: "'a bus"
  assume "unsubscribed e h k st"
  then show "unsubscribed e h k (st\<lparr>error_log := error_log st @ [l]\<rparr>)"
    unfolding unsubscribed_def clean_error_log by simp
next
  fix l and st :: "'a bus"
  show "stays_clean e h st (st\<lparr>error_log := error_log st @ [l]\<rparr>)"
    by (simp add: stays_clean_def clean_error_log)
next
  fix e1 and st :: "'a bus"
  assume "unsubscribed e h k st"
  then show "unsubscribed e h k (st\<lparr>onceListeners := (onceListeners st)(e1 := None)\<rparr>)"
    unfolding unsubscribed_def using clean_drop_once [of e h st _ e1]
    by (simp split: if_splits)
next
  fix e1 and st :: "'a bus"
  show "stays_clean e h st (st\<lparr>onceListeners := (onceListeners st)(e1 := None)\<rparr>)"
    by (simp add: stays_clean_def clean_drop_once)
next
  fix e1 a i h1 and st :: "'a bus"
  assume "unsubscribed e h k st" and w: "may_walk e h e1 a st"
    and i: "i < length (store st a)" and h1: "store st a ! i = Some h1"
  have "Some h1 \<in> set (store st a)"
    using nth_mem [OF i] h1 by simp
  with w show "may_invoke e h e1 h1"
    by (auto simp: may_walk_def may_invoke_def clean_def set_has_def)
next
  fix e1 a and st :: "'a bus"
  assume "unsubscribed e h k st" "listeners st e1 = Some a \<or> onceListeners st e1 = Some a"
  then show "may_walk e h e1 a st"
    by (auto simp: may_walk_def unsubscribed_def)
next
  fix e1 a and st st' :: "'a bus"
  assume "may_walk e h e1 a st" "stays_clean e h st st'"
  then show "may_walk e h e1 a st'"
    by (simp add: may_walk_def stays_clean_def)
next
  fix k c
  assume "Call c \<in> set (env k)"
  with env show "no_register e h c" by simp
qed

lemma set_delete_absent: "\<not> set_has h s \<Longrightarrow> set_delete h s = s"
  by (induction s) (auto simp: set_has_def set_delete_def)

lemma off_absent:
  assumes "\<not> is_listener st e h" and "\<not> is_once_listener st e h"
  shows "off e h st = st"
proof -
  have "store (off e h st) a = store st a" for a
    using assms
    by (auto simp: store_off is_listener_def is_once_listener_def set_delete_absent)
  then have "store (off e h st) = store st"
    by (rule ext)
  then show ?thesis
    by (simp add: off_def Let_def split: option.splits)
qed

lemma bus_wfD:
  assumes "bus_wf st"
  shows "listeners st e = Some a \<Longrightarrow> a < next_addr st"
    and "onceListeners st e = Some a \<Longrightarrow> a < next_addr st"
    and "listeners st e = Some a \<Longrightarrow> listeners st e' = Some a \<Longrightarrow> e = e'"
    and "onceListeners st e = Some a \<Longrightarrow> onceListeners st e' = Some a \<Longrightarrow> e = e'"
    and "listeners st e = Some a \<Longrightarrow> onceListeners st e' \<noteq> Some a"
    and "distinct (live (store st a))"
  using assms unfolding bus_wf_def by meson+

lemma unsubscribed_off_start:
  assumes "bus_wf st"
  shows "unsubscribed e h (length (calls st)) (off e h st)"
proof -
  note wf = bus_wfD [OF assms]
  have fresh: "\<forall>e' a. listeners st e' = Some a \<or> onceListeners st e' = Some a \<longrightarrow> a < next_addr st"
    using wf(1,2) by auto
  have "clean e h (off e h st) a"
    if a: "listeners st e = Some a \<or> onceListeners st e = Some a" for a
  proof -
    have 1: "a < next_addr st" using a wf(1) [of e a] wf(2) [of e a] by auto
    have 2: "\<not> set_has h (store (off e h st) a)"
      using a by (simp add: store_off set_has_set_delete)
    have 3: "listeners st e' \<noteq> Some a \<and> onceListeners st e' \<noteq> Some a" if "e' \<noteq> e" for e'
      using a that wf(3) [of e a e'] wf(4) [of e a e'] wf(5) [of e a e'] wf(5) [of e' a e]
      by auto
    from 1 2 3 show ?thesis
      unfolding clean_def off_fields by simp
  qed
  then show ?thesis
    unfolding unsubscribed_def off_fields using fresh by simp
qed

text \<open>
  Claim C4. On a well-formed bus, after \<^verbatim>\<open>off(e, h)\<close>, which is what the function returned
  by \<^verbatim>\<open>on(e, h)\<close> calls, let any program of bus calls run, with any callbacks, in which
  nothing registers \<open>h\<close> for \<open>e\<close> again: if it comes back, \<open>h\<close> has not been invoked for
  \<open>e\<close> in it. \<^verbatim>\<open>off\<close> removes the callback from the regular and from the once set of the
  event, returns normally, and leaves the bus as it was when the callback was in neither.
\<close>

theorem unsubscribe_is_final:
  assumes wf: "bus_wf st"
    and env: "\<forall>k c. Call c \<in> set (env k) \<longrightarrow> no_register e h c"
    and prog: "\<forall>c. Call c \<in> set prog \<longrightarrow> no_register e h c"
    and run: "call n env prog (off e h st) = Some (r, st')"
  shows "(\<forall>d. (e, h, d) \<notin> set (drop (length (calls st)) (calls st'))) \<and>
         invoke_unsubscribe (fst (on e h st)) st = off e h st \<and>
         \<not> is_listener (off e h st) e h \<and> \<not> is_once_listener (off e h st) e h \<and>
         apply_op n env (Off e h) st = Some (Returned, off e h st) \<and>
         (\<not> is_listener st e h \<longrightarrow> \<not> is_once_listener st e h \<longrightarrow> off e h st = st)"
proof -
  have "unsubscribed e h (length (calls st)) (off e h st)"
    using wf by (rule unsubscribed_off_start)
  from closed_system_call [OF unsubscribed_closed [OF env] this prog run]
  have "unsubscribed e h (length (calls st)) st'" by simp
  then have "\<forall>d. (e, h, d) \<notin> set (drop (length (calls st)) (calls st'))"
    by (simp add: unsubscribed_def)
  moreover have "invoke_unsubscribe (fst (on e h st)) st = off e h st"
    by (simp add: fst_on invoke_unsubscribe_def)
  ultimately show ?thesis
    using off_removes [of e h st] off_absent [of st e h] by simp
qed

text \<open>
  Callbacks 1 and 2 are registered for an event; after \<^verbatim>\<open>off\<close> of callback 1 an \<^verbatim>\<open>emit\<close>
  of the event invokes callback 2 only.
\<close>

theorem unsubscribe_is_final_witness:
  "bus_wf subscribed \<and> is_listener subscribed ''e'' 1 \<and>
   no_register ''e'' 1 (Emit ''e'' ()) \<and>
   observed (call 4 quiet_env emit_prog (off ''e'' 1 subscribed)) =
     Some (Returned, [(''e'', 2, ())], []) \<and>
   (''e'', 1, ()) \<notin> set (calls (snd (the (call 4 quiet_env emit_prog (off ''e'' 1 subscribed)))))"
proof -
  let ?res = "call 4 quiet_env emit_prog (off ''e'' 1 subscribed)"
  have wf: "bus_wf subscribed"
    unfolding subscribed_def using bus_wf_new by (intro bus_wf_on)
  have l: "is_listener subscribed ''e'' 1"
    by (simp add: subscribed_def is_listener_def on_def EventBus_new_def set_add_def set_has_def)
  have env: "\<forall>k c. Call c \<in> set (quiet_env k) \<longrightarrow> no_register ''e'' 1 c"
    by (simp add: quiet_env_def)
  have prog: "\<forall>c. Call c \<in> set emit_prog \<longrightarrow> no_register ''e'' 1 c"
    by (simp add: emit_prog_def no_register_def)
  have o: "observed ?res = Some (Returned, [(''e'', 2, ())], [])"
    by code_simp
  then obtain st' where run: "?res = Some (Returned, st')"
    by (auto simp: observed_def split: option.splits)
  have c: "calls subscribed = []"
    by (simp add: subscribed_def on_fields EventBus_new_def)
  have "(''e'', 1, ()) \<notin> set (calls st')"
    using unsubscribe_is_final [OF wf env prog run] c by simp
  then show ?thesis
    using wf l o run by (simp add: no_register_def)
qed



section \<open>Properties of the performance monitor\<close>


lemma floor_rat_numeral:
  "\<lfloor>numeral a / numeral b :: rat\<rfloor> = numeral a div numeral b"
  by (metis floor_divide_of_int_eq of_int_numeral)


lemma qualityLevels_get_levels:
  "qualityLevels_get ''HIGH'' = Some (Settings \<lparr>pixelRatio = 2, shadows = True, particles = 1000, antialiasing = True\<rparr>)"
  "qualityLevels_get ''MEDIUM'' = Some (Settings \<lparr>pixelRatio = 3 / 2, shadows = True, particles = 500, antialiasing = True\<rparr>)"
  "qualityLevels_get ''LOW'' = Some (Settings \<lparr>pixelRatio = 1, shadows = False, particles = 200, antialiasing = False\<rparr>)"
  by (simp_all add: qualityLevels_get_def qualityLevels_def)

lemma currentQuality_setQuality:
  "qualityLevels_get q \<noteq> None \<Longrightarrow> currentQuality (setQuality q st) = q"
  by (auto simp: setQuality_def split: option.splits)

lemma currentQuality_adjustQuality:
  "currentQuality (adjustQuality st) =
     (if fps st < 30 \<and> js_gt (getAverageFrameTime st) 33 then spec_step_down (currentQuality st)
      else if fps st \<ge> 60 \<and> js_lt (getAverageFrameTime st) 16 then spec_step_up (currentQuality st)
      else currentQuality st)"
  by (simp add: adjustQuality_def Let_def currentQuality_setQuality qualityLevels_get_levels
      minAcceptableFPS_def targetFPS_def spec_step_down_def spec_step_up_def)



lemma end_frame_tick:
  "evaluation_tick now st \<Longrightarrow>
   end_frame now st =
     (let s2 = (if autoQualityAdjust st then adjustQuality (before_adjust now st)
                else before_adjust now st)
      in s2\<lparr>emitted := emitted s2 @ [(''performance:fps'', FpsUpdate (fps s2))], lastTime := now\<rparr>)"
  by (simp add: end_frame_def evaluation_tick_def before_adjust_def Let_def)

lemma end_frame_no_tick:
  "\<not> evaluation_tick now st \<Longrightarrow>
   currentQuality (end_frame now st) = currentQuality st \<and>
   autoQualityAdjust (end_frame now st) = autoQualityAdjust st"
  by (simp add: end_frame_def evaluation_tick_def Let_def)





lemma one_step_down: "one_step q (spec_step_down q)"
  by (simp add: one_step_def spec_step_down_def level_rank_def)

lemma one_step_up: "one_step q (spec_step_up q)"
  by (simp add: one_step_def spec_step_up_def level_rank_def)

lemma one_step_refl: "one_step q q"
  by (simp add: one_step_def)

lemma one_step_adjustQuality: "one_step (currentQuality st) (currentQuality (adjustQuality st))"
  by (simp add: currentQuality_adjustQuality one_step_down one_step_up one_step_refl)

lemma currentQuality_end_frame:
  "currentQuality (end_frame now st) =
     (if evaluation_tick now st \<and> autoQualityAdjust st
      then currentQuality (adjustQuality (before_adjust now st)) else currentQuality st)"
  by (cases "evaluation_tick now st")
     (simp_all add: end_frame_tick end_frame_no_tick Let_def before_adjust_def)

lemma currentQuality_before_adjust: "currentQuality (before_adjust now st) = currentQuality st"
  by (simp add: before_adjust_def)

text \<open>
  Claim C5. In every state, one call of \<^verbatim>\<open>end\<close>, evaluation tick or not, leaves the level
  where it is or moves it to a neighbour in the order LOW, MEDIUM, HIGH; from HIGH it
  reaches only HIGH or MEDIUM, and from LOW only LOW or MEDIUM.
\<close>

theorem tick_moves_one_step:
  "one_step (currentQuality st) (currentQuality (end_frame now st)) \<and>
   (currentQuality st = ''HIGH'' \<longrightarrow>
      currentQuality (end_frame now st) = ''HIGH'' \<or> currentQuality (end_frame now st) = ''MEDIUM'') \<and>
   (currentQuality st = ''LOW'' \<longrightarrow>
      currentQuality (end_frame now st) = ''LOW'' \<or> currentQuality (end_frame now st) = ''MEDIUM'')"
proof -
  have "one_step (currentQuality (before_adjust now st))
          (currentQuality (adjustQuality (before_adjust now st)))"
    by (rule one_step_adjustQuality)
  then have a: "one_step (currentQuality st) (currentQuality (end_frame now st))"
    by (simp add: currentQuality_end_frame currentQuality_before_adjust one_step_refl)
  have b: "one_step ''HIGH'' q \<Longrightarrow> q = ''HIGH'' \<or> q = ''MEDIUM''" for q
    by (auto simp: one_step_def level_rank_def split: if_splits)
  have c: "one_step ''LOW'' q \<Longrightarrow> q = ''LOW'' \<or> q = ''MEDIUM''" for q
    by (auto simp: one_step_def level_rank_def split: if_splits)
  from a b c show ?thesis by metis
qed

text \<open>The tick of the slow first frame starts at HIGH and ends at MEDIUM, one step below.\<close>

theorem tick_moves_one_step_witness:
  "currentQuality slow_start = ''HIGH'' \<and> currentQuality (end_frame 1000 slow_start) = ''MEDIUM'' \<and>
   one_step ''HIGH'' ''MEDIUM''"
proof -
  have s0: "currentQuality slow_start = ''HIGH''"
    by (simp add: slow_start_def begin_frame_def PerformanceMonitor_new_def)
  have "currentQuality (end_frame 1000 slow_start) \<noteq> ''HIGH''"
    by (simp add: currentQuality_end_frame currentQuality_adjustQuality evaluation_tick_def
        fpsUpdateInterval_def slow_start_def begin_frame_def PerformanceMonitor_new_def
        before_adjust_def Math_round_def floor_rat_numeral getAverageFrameTime_def js_add_def
        js_sub_def js_gt_def maxFrameTimeSamples_def spec_step_down_def)
  then show ?thesis
    using tick_moves_one_step [of slow_start 1000] s0 by auto
qed

text \<open>
  Claim C8. The claim is that a level outside LOW, MEDIUM and HIGH is refused with a
  warning and changes nothing. The guard reads \<^verbatim>\<open>this.qualityLevels[quality]\<close>, which also
  finds the properties every object inherits: with \<^verbatim>\<open>'constructor'\<close> the guard passes, no
  warning is written, the level becomes \<^verbatim>\<open>'constructor'\<close> and the change event is emitted.
\<close>

theorem setQuality_inherited_name:
  "currentQuality (setQuality ''constructor'' (PerformanceMonitor_new 0 0)) = ''constructor'' \<and>
   emitted (setQuality ''constructor'' (PerformanceMonitor_new 0 0)) =
     [(''performance:quality-changed'', QualityChanged ''constructor'' (Inherited ''constructor''))] \<and>
   console_log (setQuality ''constructor'' (PerformanceMonitor_new 0 0)) = []"
  by (simp add: setQuality_def qualityLevels_get_def qualityLevels_def object_prototype_def
      PerformanceMonitor_new_def)




lemma recognized_levels:
  "(\<exists>bundle. map_of qualityLevels quality = Some bundle) \<longleftrightarrow>
     quality = ''HIGH'' \<or> quality = ''MEDIUM'' \<or> quality = ''LOW''"
  by (simp add: qualityLevels_def)

text \<open>
  Claim C10. For a level \<^verbatim>\<open>qualityLevels\<close> defines, \<^verbatim>\<open>setQuality\<close> sets the level and emits
  \<^verbatim>\<open>performance:quality-changed\<close> with the level and its settings, whatever the level was
  before: when it was already that level, the level is unchanged and the event is emitted
  all the same.
\<close>

theorem setQuality_always_emits:
  assumes "map_of qualityLevels quality = Some bundle"
  shows "setQuality quality st =
           st\<lparr>currentQuality := quality,
              emitted := emitted st @
                [(''performance:quality-changed'', QualityChanged quality (Settings bundle))]\<rparr> \<and>
         (currentQuality st = quality \<longrightarrow>
            currentQuality (setQuality quality st) = currentQuality st \<and>
            length (emitted (setQuality quality st)) = Suc (length (emitted st)))"
  using assms by (simp add: setQuality_def qualityLevels_get_def)

text \<open>A new monitor is at HIGH, and \<^verbatim>\<open>setQuality('HIGH')\<close> on it emits the event.\<close>

theorem setQuality_always_emits_witness:
  "map_of qualityLevels ''HIGH'' =
     Some \<lparr>pixelRatio = 2, shadows = True, particles = 1000, antialiasing = True\<rparr> \<and>
   currentQuality (PerformanceMonitor_new 0 0) = ''HIGH'' \<and>
   currentQuality (setQuality ''HIGH'' (PerformanceMonitor_new 0 0)) = ''HIGH'' \<and>
   emitted (setQuality ''HIGH'' (PerformanceMonitor_new 0 0)) =
     [(''performance:quality-changed'', QualityChanged ''HIGH''
        (Settings \<lparr>pixelRatio = 2, shadows = True, particles = 1000, antialiasing = True\<rparr>))]"
proof -
  have m: "map_of qualityLevels ''HIGH'' =
     Some \<lparr>pixelRatio = 2, shadows = True, particles = 1000, antialiasing = True\<rparr>"
    by (simp add: qualityLevels_def)
  show ?thesis
    using setQuality_always_emits [OF m, of "PerformanceMonitor_new 0 0"] m
    by (simp add: PerformanceMonitor_new_def)
qed

end
